theory Spec2Isabelle
  imports Main "HOL-Library.Word"
begin

unbundle bit_operations_syntax

section \<open>Exceptions and the result vector\<close>

text \<open>
  The exceptions of the C++ standard library that the two programs can meet:
  \<^verbatim>\<open>std::stoull\<close> throws the first two, \<^verbatim>\<open>std::vector::reserve\<close> the other two.
\<close>

datatype exn = invalid_argument | out_of_range | length_error | bad_alloc

text \<open>
  Both generators start with \<^verbatim>\<open>primes.reserve(count)\<close>. It throws \<^verbatim>\<open>std::length_error\<close>
  for a count above the vector's \<^verbatim>\<open>max_size()\<close>, and \<^verbatim>\<open>std::bad_alloc\<close> when the memory
  for \<open>count\<close> elements is not to be had; for a count of zero it allocates nothing. The two
  bounds belong to the library and to the machine, so they are parameters. After it
  no \<^verbatim>\<open>push_back\<close> of the loops has to grow the vector; the one 2 that is appended when
  the count is zero is taken to find its memory.
\<close>

record vector_limits =
  max_size :: nat
  max_alloc :: nat

definition reserve :: "vector_limits \<Rightarrow> nat \<Rightarrow> exn option" where
  "reserve lim count =
     (if count > max_size lim then Some length_error
      else if count > max_alloc lim then Some bad_alloc
      else None)"

section \<open>The bounded domain: ComputePrimes64bits.cpp\<close>

type_synonym u64 = "64 word"
type_synonym u128 = "128 word"

subsection \<open>Modular arithmetic\<close>

text \<open>
  The body of the \<^verbatim>\<open>while (bb)\<close> loop of \<^verbatim>\<open>mul_mod\<close> in the \<^verbatim>\<open>_MSC_VER\<close> branch.
  All additions are on 64-bit words and wrap around. The test
  \<^verbatim>\<open>base < base - base\<close> is kept as the source writes it.
\<close>

function mul_mod_loop :: "u64 \<Rightarrow> u64 \<Rightarrow> u64 \<Rightarrow> u64 \<Rightarrow> u64" where
  "mul_mod_loop result base bb m =
     (if bb \<noteq> 0 then
        let result1 =
              (if bb AND 1 \<noteq> 0 then
                 let tmp = result + base;
                     tmp1 = (if tmp < result \<or> tmp \<ge> m then tmp mod m else tmp)
                 in tmp1 mod m
               else result);
            bb1 = drop_bit 1 bb;
            base1 =
              (if bb1 \<noteq> 0 then
                 let b2 = base + base
                 in if b2 \<ge> m \<or> b2 < b2 - b2 then b2 mod m else b2
               else base)
        in mul_mod_loop result1 base1 bb1 m
      else result)"
  by pat_completeness auto
termination
  by (relation "measure (\<lambda>(result, base, bb, m). unat bb)")
     (simp_all add: drop_bit_eq_div unat_div unat_gt_0)

declare mul_mod_loop.simps [simp del]

text \<open>
  \<^verbatim>\<open>mul_mod(a, b, mod)\<close>. The flag \<open>msc\<close> says whether \<^verbatim>\<open>_MSC_VER\<close> is defined:
  with it the function is the doubling loop, without it the product is taken in
  128 bits and reduced. The source divides by \<^verbatim>\<open>mod\<close>; its callers pass \<open>mod \<ge> 2\<close>.
\<close>

definition mul_mod :: "bool \<Rightarrow> u64 \<Rightarrow> u64 \<Rightarrow> u64 \<Rightarrow> u64" where
  "mul_mod msc a b m =
     (if msc then mul_mod_loop 0 (a mod m) b m mod m
      else ucast (((ucast a :: u128) * (ucast b :: u128)) mod (ucast m :: u128)))"

function pow_mod_loop :: "bool \<Rightarrow> u64 \<Rightarrow> u64 \<Rightarrow> u64 \<Rightarrow> u64 \<Rightarrow> u64" where
  "pow_mod_loop msc res a d m =
     (if d \<noteq> 0 then
        let res1 = (if d AND 1 \<noteq> 0 then mul_mod msc res a m else res);
            a1 = mul_mod msc a a m;
            d1 = drop_bit 1 d
        in pow_mod_loop msc res1 a1 d1 m
      else res)"
  by pat_completeness auto
termination
  by (relation "measure (\<lambda>(msc, res, a, d, m). unat d)")
     (simp_all add: drop_bit_eq_div unat_div unat_gt_0)

declare pow_mod_loop.simps [simp del]

definition pow_mod :: "bool \<Rightarrow> u64 \<Rightarrow> u64 \<Rightarrow> u64 \<Rightarrow> u64" where
  "pow_mod msc a d m = pow_mod_loop msc 1 (a mod m) d m"

subsection \<open>The deterministic primality test\<close>

definition small_primes :: "u64 list" where
  "small_primes = [2, 3, 5, 7, 11, 13, 17, 19, 23, 29, 31, 37]"

definition bases :: "u64 list" where
  "bases = [2, 325, 9375, 28178, 450775, 9780504, 1795265022]"

text \<open>
  The loop \<^verbatim>\<open>for (u64 p : small_primes)\<close> with its two early returns:
  \<open>Some b\<close> is \<^verbatim>\<open>return b\<close>, \<open>None\<close> is falling out of the loop.
\<close>

fun trial_division_u64 :: "u64 list \<Rightarrow> u64 \<Rightarrow> bool option" where
  "trial_division_u64 [] n = None"
| "trial_division_u64 (p # ps) n =
     (if n = p then Some True
      else if n mod p = 0 then Some False
      else trial_division_u64 ps n)"

text \<open>
  \<^verbatim>\<open>while ((d & 1) == 0) { d >>= 1; ++s; }\<close>. For \<open>d = 0\<close> the loop of the source
  never ends, so the loop is a partial function and \<open>None\<close> stands for not returning.
\<close>

partial_function (option) decompose_u64 :: "u64 \<Rightarrow> nat \<Rightarrow> (u64 \<times> nat) option" where
  "decompose_u64 d s =
     (if d AND 1 = 0 then decompose_u64 (drop_bit 1 d) (s + 1) else Some (d, s))"

declare decompose_u64.simps [code]

text \<open>
  The inner loop \<^verbatim>\<open>for (int r = 1; r < s; ++r)\<close>; the result is the value of
  \<^verbatim>\<open>composite\<close> when the loop is left.
\<close>

function squaring_loop_u64 :: "bool \<Rightarrow> u64 \<Rightarrow> u64 \<Rightarrow> nat \<Rightarrow> nat \<Rightarrow> bool" where
  "squaring_loop_u64 msc n x r s =
     (if r < s then
        let x1 = mul_mod msc x x n
        in if x1 = n - 1 then False else squaring_loop_u64 msc n x1 (r + 1) s
      else True)"
  by pat_completeness auto
termination
  by (relation "measure (\<lambda>(msc, n, x, r, s). s - r)") auto

declare squaring_loop_u64.simps [simp del]

text \<open>The loop \<^verbatim>\<open>for (u64 a : bases)\<close>; \<open>False\<close> is \<^verbatim>\<open>return false\<close>.\<close>

fun bases_loop_u64 :: "bool \<Rightarrow> u64 \<Rightarrow> u64 \<Rightarrow> nat \<Rightarrow> u64 list \<Rightarrow> bool" where
  "bases_loop_u64 msc n d s [] = True"
| "bases_loop_u64 msc n d s (a # as) =
     (if a mod n = 0 then bases_loop_u64 msc n d s as
      else
        let x = pow_mod msc a d n
        in if x = 1 \<or> x = n - 1 then bases_loop_u64 msc n d s as
           else if squaring_loop_u64 msc n x 1 s then False
           else bases_loop_u64 msc n d s as)"

definition is_prime_u64 :: "bool \<Rightarrow> u64 \<Rightarrow> bool option" where
  "is_prime_u64 msc n =
     (if n < 2 then Some False
      else case trial_division_u64 small_primes n of
        Some b \<Rightarrow> Some b
      | None \<Rightarrow>
          (case decompose_u64 (n - 1) 0 of
             None \<Rightarrow> None
           | Some (d, s) \<Rightarrow> Some (bases_loop_u64 msc n d s bases)))"

subsection \<open>Candidate generation\<close>

text \<open>\<^verbatim>\<open>while (n % 3 == 0) n += 2;\<close> on 64-bit words: the addition wraps.\<close>

function skip_multiples_of_3 :: "u64 \<Rightarrow> u64" where
  "skip_multiples_of_3 n = (if n mod 3 = 0 then skip_multiples_of_3 (n + 2) else n)"
  by pat_completeness auto
termination
proof (relation "measure (\<lambda>n. if n mod 3 = 0 then 1 else 0)")
  show "wf (measure (\<lambda>n :: u64. if n mod 3 = 0 then 1 else 0))" by simp
next
  fix n :: u64
  assume z: "n mod 3 = 0"
  define c :: nat where "c = 2 ^ 64"
  have c3: "c mod 3 = 1" by (simp add: c_def)
  have c2: "2 \<le> c" by (simp add: c_def)
  have "unat (n mod 3) = 0" using z by simp
  then have u3: "unat n mod 3 = 0"
    by (simp add: unat_mod)
  have w: "unat (n + 2) = (unat n + 2) mod c"
    by (simp add: unat_word_ariths c_def)
  have lt: "unat n < c"
    using unsigned_less [of n, where ?'a = nat] by (simp add: c_def)
  have "unat (n + 2) = unat n + 2 \<or> unat (n + 2) + c = unat n + 2"
  proof (cases "unat n + 2 < c")
    case True
    then show ?thesis using w by simp
  next
    case False
    then have "(unat n + 2) mod c = (unat n + 2 - c) mod c"
      by (simp add: le_mod_geq)
    also have "\<dots> = unat n + 2 - c"
      using lt c2 by simp
    finally show ?thesis using w False by simp
  qed
  then have "unat (n + 2) mod 3 \<noteq> 0"
    using u3 c3 by presburger
  then have "unat ((n + 2) mod 3) \<noteq> 0"
    by (simp add: unat_mod)
  then have "(n + 2) mod 3 \<noteq> 0"
    by (simp add: unat_eq_0)
  then show "(n + 2, n) \<in> measure (\<lambda>n. if n mod 3 = 0 then 1 else 0)"
    using z by simp
qed

declare skip_multiples_of_3.simps [simp del]

definition next_candidate_u64 :: "u64 \<Rightarrow> u64" where
  "next_candidate_u64 n =
     (if n \<le> 2 then 2
      else let n1 = (if n AND 1 = 0 then n + 1 else n)
           in skip_multiples_of_3 n1)"

text \<open>
  The loop \<^verbatim>\<open>while (primes.size() < count)\<close> of \<^verbatim>\<open>generate_primes_u64\<close>, with its
  \<^verbatim>\<open>break\<close> when \<^verbatim>\<open>n >= max - 2\<close>. \<open>None\<close> is a primality test that does not return.
\<close>

function generate_loop_u64 :: "bool \<Rightarrow> nat \<Rightarrow> u64 \<Rightarrow> u64 list \<Rightarrow> u64 list option" where
  "generate_loop_u64 msc count n primes =
     (if length primes < count then
        (case is_prime_u64 msc n of
           None \<Rightarrow> None
         | Some b \<Rightarrow>
             let primes1 = (if b then primes @ [n] else primes)
             in if n \<ge> - 1 - 2 then Some primes1
                else generate_loop_u64 msc count (n + 2) primes1)
      else Some primes)"
  by pat_completeness auto
termination
proof (relation "measure (\<lambda>(msc, count, n, primes). 2 ^ 64 - unat n)")
  show "wf (measure (\<lambda>(msc :: bool, count :: nat, n :: u64, primes :: u64 list).
    2 ^ 64 - unat n))" by simp
next
  fix msc :: bool and count :: nat and n :: u64 and primes p1 :: "u64 list" and b :: bool
  assume "\<not> - 1 - 2 \<le> n"
  then have "unat n < unat (- 1 - 2 :: u64)"
    by (simp add: word_le_nat_alt)
  then have lt: "unat n < 2 ^ 64 - 3"
    by simp
  then have "unat (n + 2) = unat n + 2"
    by (simp add: unat_word_ariths)
  then show "((msc, count, n + 2, p1), (msc, count, n, primes))
      \<in> measure (\<lambda>(msc, count, n, primes). 2 ^ 64 - unat n)"
    using lt by simp
qed

declare generate_loop_u64.simps [simp del]

text \<open>
  \<^verbatim>\<open>std::numeric_limits<u64>::max()\<close> is the word \<open>- 1\<close>, all bits set.

  \<^verbatim>\<open>generate_primes_u64(start, count)\<close>: \<open>Inl e\<close> is the exception of
  \<^verbatim>\<open>primes.reserve(count)\<close>, \<open>Inr primes\<close> the vector returned.
\<close>

definition generate_primes_u64 ::
    "bool \<Rightarrow> vector_limits \<Rightarrow> u64 \<Rightarrow> nat \<Rightarrow> (exn + u64 list) option" where
  "generate_primes_u64 msc lim start count =
     (case reserve lim count of
        Some e \<Rightarrow> Some (Inl e)
      | None \<Rightarrow>
          (let n = next_candidate_u64 start;
               (primes, n1) = (if n = 2 then ([2], 3) else ([], n))
           in map_option Inr (generate_loop_u64 msc count n1 primes)))"

section \<open>The unbounded domain: ComputeBigPrimesCPP.cpp\<close>

text \<open>
  A \<^verbatim>\<open>cpp_int\<close> is an \<open>int\<close>. The operator \<^verbatim>\<open>%\<close> of C++ truncates towards zero:
  the remainder has the sign of the dividend. Dividing by zero throws in the source;
  no caller in the program passes a zero modulus.
\<close>

definition trunc_mod :: "int \<Rightarrow> int \<Rightarrow> int" where
  "trunc_mod a b = sgn a * (\<bar>a\<bar> mod \<bar>b\<bar>)"

definition SMALL_PRIMES :: "int list" where
  "SMALL_PRIMES =
    [2, 3, 5, 7, 11, 13, 17, 19, 23, 29, 31, 37, 41, 43, 47, 53, 59, 61, 67, 71,
     73, 79, 83, 89, 97, 101, 103, 107, 109, 113, 127, 131, 137, 139, 149, 151,
     157, 163, 167, 173, 179, 181, 191, 193, 197, 199, 211, 223, 227, 229, 233,
     239, 241, 251, 257, 263, 269, 271, 277, 281, 283, 293, 307, 311, 313, 317,
     331, 337, 347, 349, 353, 359, 367, 373, 379, 383, 389, 397, 401, 409, 419,
     421, 431, 433, 439, 443, 449, 457, 461, 463, 467, 479, 487, 491, 499]"

definition mulmod :: "int \<Rightarrow> int \<Rightarrow> int \<Rightarrow> int" where
  "mulmod a b m = trunc_mod (a * b) m"

function powmod_loop :: "int \<Rightarrow> int \<Rightarrow> int \<Rightarrow> int \<Rightarrow> int" where
  "powmod_loop res base exp m =
     (if exp > 0 then
        let res1 = (if exp AND 1 \<noteq> 0 then mulmod res base m else res);
            base1 = mulmod base base m;
            exp1 = drop_bit 1 exp
        in powmod_loop res1 base1 exp1 m
      else res)"
  by pat_completeness auto
termination
  by (relation "measure (\<lambda>(res, base, exp, m). nat exp)")
     (simp_all add: drop_bit_eq_div)

declare powmod_loop.simps [simp del]

definition powmod :: "int \<Rightarrow> int \<Rightarrow> int \<Rightarrow> int" where
  "powmod base exp m = powmod_loop (trunc_mod 1 m) (trunc_mod base m) exp m"

text \<open>
  The loop of \<^verbatim>\<open>decompose\<close>; as in the bounded domain it does not end for \<open>d = 0\<close>.
\<close>

partial_function (option) decompose_loop :: "int \<Rightarrow> nat \<Rightarrow> (int \<times> nat) option" where
  "decompose_loop d s =
     (if d AND 1 = 0 then decompose_loop (drop_bit 1 d) (s + 1) else Some (d, s))"

declare decompose_loop.simps [code]

definition decompose :: "int \<Rightarrow> (int \<times> nat) option" where
  "decompose n = decompose_loop (n - 1) 0"

fun trial_division :: "int list \<Rightarrow> int \<Rightarrow> bool option" where
  "trial_division [] n = None"
| "trial_division (p # ps) n =
     (if n = p then Some True
      else if trunc_mod n p = 0 then Some False
      else trial_division ps n)"

text \<open>
  The random engine. Its state is the sequence of values that \<^verbatim>\<open>dist64(rng)\<close> is
  going to return: a draw takes the first value and leaves the rest.
\<close>

type_synonym rng = "nat \<Rightarrow> u64"

definition dist64 :: "rng \<Rightarrow> u64 \<times> rng" where
  "dist64 r = (r 0, \<lambda>i. r (Suc i))"

text \<open>
  \<^verbatim>\<open>boost::multiprecision::msb\<close>, the index of the highest bit set of a positive
  number, is library code; this is its value.
\<close>

function msb_index :: "int \<Rightarrow> nat" where
  "msb_index n = (if n \<le> 1 then 0 else Suc (msb_index (n div 2)))"
  by pat_completeness auto
termination
  by (relation "measure nat") auto

declare msb_index.simps [simp del]

text \<open>The loop \<^verbatim>\<open>for (size_t i = 0; i < limbs; ++i)\<close> of \<^verbatim>\<open>random_base\<close>.\<close>

fun limbs_loop :: "nat \<Rightarrow> int \<Rightarrow> rng \<Rightarrow> int \<times> rng" where
  "limbs_loop 0 a r = (a, r)"
| "limbs_loop (Suc k) a r =
     (let (w, r1) = dist64 r
      in limbs_loop k (push_bit 64 a + uint w) r1)"

definition random_base :: "int \<Rightarrow> rng \<Rightarrow> int \<times> rng" where
  "random_base limit_minus_two r =
     (if limit_minus_two \<le> 2 then (2, r)
      else
        let bits = msb_index limit_minus_two + 1;
            limbs = (bits + 63) div 64;
            (a, r1) = limbs_loop limbs 0 r;
            a1 = (if a \<le> 1 then a + 2 else a);
            a2 = trunc_mod a1 (limit_minus_two - 1)
        in (a2 + 2, r1))"

text \<open>
  The inner loop \<^verbatim>\<open>for (unsigned r = 1; r < s; ++r)\<close>; the result is the value of
  \<^verbatim>\<open>passed\<close> when the loop is left.
\<close>

function squaring_loop :: "int \<Rightarrow> int \<Rightarrow> nat \<Rightarrow> nat \<Rightarrow> bool" where
  "squaring_loop n x r s =
     (if r < s then
        let x1 = mulmod x x n
        in if x1 = n - 1 then True else squaring_loop n x1 (r + 1) s
      else False)"
  by pat_completeness auto
termination
  by (relation "measure (\<lambda>(n, x, r, s). s - r)") auto

declare squaring_loop.simps [simp del]

text \<open>The loop over the rounds; the first argument counts the rounds left.\<close>

fun rounds_loop :: "nat \<Rightarrow> int \<Rightarrow> int \<Rightarrow> nat \<Rightarrow> rng \<Rightarrow> bool \<times> rng" where
  "rounds_loop 0 n d s r = (True, r)"
| "rounds_loop (Suc t) n d s r =
     (let (a, r1) = random_base (n - 2) r;
          x = powmod a d n
      in if x = 1 \<or> x = n - 1 then rounds_loop t n d s r1
         else if squaring_loop n x 1 s then rounds_loop t n d s r1
         else (False, r1))"

definition miller_rabin :: "int \<Rightarrow> int \<Rightarrow> rng \<Rightarrow> (bool \<times> rng) option" where
  "miller_rabin n rounds r =
     (if n < 2 then Some (False, r)
      else case trial_division SMALL_PRIMES n of
        Some b \<Rightarrow> Some (b, r)
      | None \<Rightarrow>
          (case decompose n of
             None \<Rightarrow> None
           | Some (d, s) \<Rightarrow> Some (rounds_loop (nat rounds) n d s r)))"

definition is_prime :: "int \<Rightarrow> rng \<Rightarrow> (bool \<times> rng) option" where
  "is_prime n r =
     (if n < 2 then Some (False, r)
      else case trial_division SMALL_PRIMES n of
        Some b \<Rightarrow> Some (b, r)
      | None \<Rightarrow> miller_rabin n 32 r)"

text \<open>The loop \<^verbatim>\<open>while (true)\<close> of \<^verbatim>\<open>next_candidate\<close>.\<close>

function next_candidate_loop :: "int \<Rightarrow> int" where
  "next_candidate_loop n =
     (if trunc_mod n 3 \<noteq> 0 \<and> trunc_mod n 5 \<noteq> 0 then n
      else next_candidate_loop (n + 2))"
  by pat_completeness auto
termination
proof (relation "measure (\<lambda>n. if n mod 15 \<in> {3, 10} then 2
                               else if n mod 3 = 0 \<or> n mod 5 = 0 then 1 else 0)")
  show "wf (measure (\<lambda>n :: int. if n mod 15 \<in> {3, 10} then 2
                               else if n mod 3 = 0 \<or> n mod 5 = 0 then 1 else (0::nat)))"
    by simp
next
  fix n :: int
  assume a: "\<not> (trunc_mod n 3 \<noteq> 0 \<and> trunc_mod n 5 \<noteq> 0)"
  have t: "trunc_mod n k = 0 \<longleftrightarrow> n mod k = 0" if "0 < k" for k
    using that by (auto simp: trunc_mod_def sgn_if abs_if zmod_zminus1_not_zero
        mod_minus_eq dvd_eq_mod_eq_0 [symmetric])
  from a have b: "n mod 3 = 0 \<or> n mod 5 = 0"
    by (simp add: t)
  define r where "r = n mod 15"
  have m3: "n mod 3 = r mod 3" and m5: "n mod 5 = r mod 5"
    by (simp_all add: r_def mod_mod_cancel)
  have n2: "(n + 2) mod 15 = (r + 2) mod 15"
    by (simp add: r_def mod_add_left_eq)
  have "(n + 2) mod 3 = (n + 2) mod 15 mod 3" and "(n + 2) mod 5 = (n + 2) mod 15 mod 5"
    by (simp_all add: mod_mod_cancel)
  then have p3: "(n + 2) mod 3 = (r + 2) mod 15 mod 3" and p5: "(n + 2) mod 5 = (r + 2) mod 15 mod 5"
    by (simp_all add: n2)
  have "0 \<le> r" and "r < 15"
    by (simp_all add: r_def)
  then have "r = 0 \<or> r = 1 \<or> r = 2 \<or> r = 3 \<or> r = 4 \<or> r = 5 \<or> r = 6 \<or> r = 7
      \<or> r = 8 \<or> r = 9 \<or> r = 10 \<or> r = 11 \<or> r = 12 \<or> r = 13 \<or> r = 14"
    by arith
  then have "(if (r + 2) mod 15 \<in> {3, 10} then 2
       else if (r + 2) mod 15 mod 3 = 0 \<or> (r + 2) mod 15 mod 5 = 0 then 1 else (0::nat))
     < (if r \<in> {3, 10} then 2 else if r mod 3 = 0 \<or> r mod 5 = 0 then 1 else 0)"
    using b unfolding m3 m5 by (elim disjE) simp_all
  then show "(n + 2, n) \<in> measure (\<lambda>n. if n mod 15 \<in> {3, 10} then 2
                               else if n mod 3 = 0 \<or> n mod 5 = 0 then 1 else 0)"
    unfolding in_measure n2 p3 p5 m3 m5 r_def [symmetric] .
qed

declare next_candidate_loop.simps [simp del]

definition next_candidate :: "int \<Rightarrow> int" where
  "next_candidate n =
     (if n \<le> 2 then 2
      else let n1 = (if n AND 1 = 0 then n + 1 else n)
           in next_candidate_loop n1)"

text \<open>
  The loop \<^verbatim>\<open>while (primes.size() < count)\<close> of \<^verbatim>\<open>generate_primes\<close>. Nothing bounds
  the candidate, so the loop is a partial function: \<open>None\<close> is not returning.
\<close>

partial_function (option) generate_loop ::
    "nat \<Rightarrow> int \<Rightarrow> int list \<Rightarrow> rng \<Rightarrow> int list option" where
  "generate_loop count n primes r =
     (if length primes < count then
        (case is_prime n r of
           None \<Rightarrow> None
         | Some (b, r1) \<Rightarrow>
             generate_loop count (n + 2) (if b then primes @ [n] else primes) r1)
      else Some primes)"

declare generate_loop.simps [code]

text \<open>
  \<^verbatim>\<open>generate_primes(start, count)\<close>; the argument \<open>r\<close> is the engine that the source
  seeds from \<^verbatim>\<open>std::random_device\<close>, after \<^verbatim>\<open>primes.reserve(count)\<close>.
\<close>

definition generate_primes ::
    "vector_limits \<Rightarrow> int \<Rightarrow> nat \<Rightarrow> rng \<Rightarrow> (exn + int list) option" where
  "generate_primes lim start count r =
     (case reserve lim count of
        Some e \<Rightarrow> Some (Inl e)
      | None \<Rightarrow>
          (let n = next_candidate start;
               (primes, n1) = (if n = 2 then ([n], 3) else ([], n))
           in map_option Inr (generate_loop count n1 primes r)))"

section \<open>The command lines\<close>

text \<open>
  \<^verbatim>\<open>std::stoull(s)\<close> of the C++ standard library, base 10: it skips white space, reads an
  optional sign and then digits, and ignores what follows them. Without a digit it
  throws \<^verbatim>\<open>std::invalid_argument\<close>, on a value above the largest 64-bit number it throws
  \<^verbatim>\<open>std::out_of_range\<close>; a minus sign negates the value as an unsigned 64-bit number.
\<close>

definition isspace :: "char \<Rightarrow> bool" where
  "isspace c \<longleftrightarrow> of_char c \<in> {32, 9, 10, 11, 12, 13 :: nat}"

definition isdigit :: "char \<Rightarrow> bool" where
  "isdigit c \<longleftrightarrow> 48 \<le> (of_char c :: nat) \<and> (of_char c :: nat) \<le> 57"

definition digits_value :: "string \<Rightarrow> nat" where
  "digits_value ds = foldl (\<lambda>v c. 10 * v + (of_char c - 48)) 0 ds"

definition stoull :: "string \<Rightarrow> exn + u64" where
  "stoull s =
     (let s1 = dropWhile isspace s;
          (neg, s2) = (case s1 of
                         [] \<Rightarrow> (False, [])
                       | c # cs \<Rightarrow> if c = CHR ''-'' then (True, cs)
                                  else if c = CHR ''+'' then (False, cs)
                                  else (False, s1));
          ds = takeWhile isdigit s2
      in if ds = [] then Inl invalid_argument
         else if digits_value ds > 2 ^ 64 - 1 then Inl out_of_range
         else Inr (if neg then - of_nat (digits_value ds) else of_nat (digits_value ds)))"

text \<open>
  What a run of \<^verbatim>\<open>main\<close> ends in: a return with an exit code, the numbers printed on
  standard output and whether a message went to the error stream; an exception that
  nothing catches, which ends the process through \<^verbatim>\<open>std::terminate\<close>; or no end at all.
\<close>

datatype 'a outcome = Exit int "'a list" bool | Uncaught exn | Diverges

text \<open>\<^verbatim>\<open>main\<close> of ComputePrimes64bits.cpp; \<open>argv\<close> includes the program name.\<close>

definition main_u64 :: "bool \<Rightarrow> vector_limits \<Rightarrow> string list \<Rightarrow> u64 outcome" where
  "main_u64 msc lim argv =
     (let argc = length argv
      in case (if argc \<ge> 2 then stoull (argv ! 1) else Inr 18446744073709551615) of
           Inl e \<Rightarrow> Exit 1 [] True
         | Inr start \<Rightarrow>
             (case (if argc \<ge> 3 then stoull (argv ! 2) else Inr 100) of
                Inl e \<Rightarrow> Uncaught e
              | Inr count \<Rightarrow>
                  (case generate_primes_u64 msc lim start (unat count) of
                     None \<Rightarrow> Diverges
                   | Some (Inl e) \<Rightarrow> Uncaught e
                   | Some (Inr primes) \<Rightarrow> Exit 0 primes False)))"

text \<open>
  \<^verbatim>\<open>main\<close> of ComputeBigPrimesCPP.cpp. Reading a \<^verbatim>\<open>cpp_int\<close> from a string stream is
  library code: \<open>read_cpp_int\<close> is that reader, \<open>None\<close> when the stream fails. The
  default start is read without a check; \<^verbatim>\<open>start\<close> is zero before it.
\<close>

definition main_big ::
    "(string \<Rightarrow> int option) \<Rightarrow> vector_limits \<Rightarrow> rng \<Rightarrow> string list \<Rightarrow> int outcome" where
  "main_big read_cpp_int lim r argv =
     (let argc = length argv
      in case (if argc \<ge> 2 then read_cpp_int (argv ! 1)
               else Some (case read_cpp_int ''18446744073713598463'' of
                            None \<Rightarrow> 0 | Some v \<Rightarrow> v)) of
           None \<Rightarrow> Exit 1 [] True
         | Some start \<Rightarrow>
             (case (if argc \<ge> 3 then stoull (argv ! 2) else Inr 100) of
                Inl e \<Rightarrow> Uncaught e
              | Inr how_many \<Rightarrow>
                  (case generate_primes lim start (unat how_many) r of
                     None \<Rightarrow> Diverges
                   | Some (Inl e) \<Rightarrow> Uncaught e
                   | Some (Inr primes) \<Rightarrow> Exit 0 primes False)))"

section \<open>Primes\<close>

text \<open>The reference notion of a prime number that the claims speak of.\<close>

definition prime_nat :: "nat \<Rightarrow> bool" where
  "prime_nat p \<longleftrightarrow> 1 < p \<and> (\<forall>m. m dvd p \<longrightarrow> m = 1 \<or> m = p)"

section \<open>Evaluations at single inputs\<close>

lemma prime_nat_bounded:
  "prime_nat p \<longleftrightarrow> 1 < p \<and> (\<forall>m \<in> {2..<p}. \<not> m dvd p)"
proof
  assume p: "prime_nat p"
  then have "\<not> m dvd p" if "m \<in> {2..<p}" for m
    using that unfolding prime_nat_def by auto
  with p show "1 < p \<and> (\<forall>m \<in> {2..<p}. \<not> m dvd p)"
    by (simp add: prime_nat_def)
next
  assume a: "1 < p \<and> (\<forall>m \<in> {2..<p}. \<not> m dvd p)"
  have "m = 1 \<or> m = p" if d: "m dvd p" for m
  proof -
    have "m \<le> p" using d a by (simp add: dvd_imp_le)
    moreover have "m \<noteq> 0" using d a by (metis dvd_0_left less_numeral_extra(3) zero_less_one less_trans)
    moreover have "m \<notin> {2..<p}" using d a by blast
    ultimately show ?thesis by auto
  qed
  with a show "prime_nat p" by (simp add: prime_nat_def)
qed

lemma prime_nat_3: "prime_nat 3"
  by (simp add: prime_nat_bounded atLeastLessThan_nat_numeral)

lemma prime_nat_5: "prime_nat 5"
  by (simp add: prime_nat_bounded atLeastLessThan_nat_numeral)

text \<open>
  C3. With \<^verbatim>\<open>_MSC_VER\<close> defined, \<^verbatim>\<open>mul_mod(2^63, 2, 2^64 - 1)\<close> returns 0, although
  \<open>2\<^sup>6\<^sup>3 \<cdot> 2 mod (2\<^sup>6\<^sup>4 - 1) = 1\<close>: the doubling \<^verbatim>\<open>base + base\<close> wraps around and the
  test \<^verbatim>\<open>base < base - base\<close> never sees it. The 128-bit branch returns 1.
\<close>

theorem C3_mul_mod_doubling_wraps:
  "mul_mod True 9223372036854775808 2 18446744073709551615 = 0
   \<and> (unat (9223372036854775808 :: u64) * unat (2 :: u64))
        mod unat (18446744073709551615 :: u64) = 1
   \<and> mul_mod False 9223372036854775808 2 18446744073709551615 = 1"
  by (simp add: mul_mod_def mul_mod_loop.simps)

text \<open>
  C6. \<^verbatim>\<open>is_prime_u64(10232178353385766913)\<close> passes the trial division, writes
  \<open>n - 1 = 71 \<cdot> 2\<^sup>5\<^sup>7\<close> and calls \<^verbatim>\<open>pow_mod(2, 71, n)\<close> for its first base. With
  \<^verbatim>\<open>_MSC_VER\<close> defined that call returns 0, where \<open>2\<^sup>7\<^sup>1 mod n\<close> is
  7782220156096216858: the products of \<^verbatim>\<open>mul_mod\<close> wrap around. The 128-bit branch
  returns the power.
\<close>

lemma pow_mod_msc_at_71: "pow_mod True 2 71 10232178353385766913 = 0"
  by code_simp

lemma pow_mod_wide_at_71: "pow_mod False 2 71 10232178353385766913 = 7782220156096216858"
  by code_simp

lemma pow_mod_reached_at_71:
  "trial_division_u64 small_primes 10232178353385766913 = None
   \<and> decompose_u64 (10232178353385766913 - 1) 0 = Some (71, 57)"
  by code_simp

theorem C6_pow_mod_wrong_power:
  "trial_division_u64 small_primes 10232178353385766913 = None
   \<and> decompose_u64 (10232178353385766913 - 1) 0 = Some (71, 57)
   \<and> pow_mod True 2 71 10232178353385766913 = 0
   \<and> (2::nat) ^ 71 mod 10232178353385766913 = 7782220156096216858
   \<and> pow_mod False 2 71 10232178353385766913 = 7782220156096216858"
proof -
  have "(2::nat) ^ 71 mod 10232178353385766913 = 7782220156096216858"
    by simp
  then show ?thesis
    using pow_mod_reached_at_71 pow_mod_msc_at_71 pow_mod_wide_at_71 by blast
qed

text \<open>
  A call that no run of the program makes: for the exponent 0 and the modulus 1 the
  bounded \<^verbatim>\<open>pow_mod\<close> returns its initial \<^verbatim>\<open>res = 1\<close>, the unbounded \<^verbatim>\<open>powmod\<close> its
  \<^verbatim>\<open>1 % mod\<close>, which is 0.
\<close>

lemma pow_mod_exponent_zero_modulus_one:
  "pow_mod msc a 0 1 = 1 \<and> powmod b 0 1 = 0"
  by (simp add: pow_mod_def powmod_def trunc_mod_def pow_mod_loop.simps powmod_loop.simps)

text \<open>
  C4. \<^verbatim>\<open>next_candidate_u64(3)\<close> is 5 and \<^verbatim>\<open>next_candidate(3)\<close> is 7: the prime 3 lies
  in \<open>[n, next_candidate n)\<close> in both domains, and so does the prime 5 in the unbounded
  one. The filter does not exempt 3 and 5 themselves.
\<close>

theorem C4_next_candidate_skips_3:
  "prime_nat 3 \<and> prime_nat 5
   \<and> next_candidate_u64 3 = 5 \<and> next_candidate 3 = 7 \<and> next_candidate 5 = 7"
  by (simp add: prime_nat_3 prime_nat_5 next_candidate_u64_def next_candidate_def
      trunc_mod_def skip_multiples_of_3.simps next_candidate_loop.simps)

theorem C4_next_candidate_skips_3_witness:
  "(3::u64) < next_candidate_u64 3 \<and> (3::int) < next_candidate 3
   \<and> (5::int) < next_candidate 5"
  using C4_next_candidate_skips_3 by simp

text \<open>
  C5. \<^verbatim>\<open>next_candidate_u64(2^64 - 1)\<close> is 1: the start is a multiple of 3 and
  \<^verbatim>\<open>n += 2\<close> wraps around. Where the vector can hold five elements,
  \<^verbatim>\<open>generate_primes_u64(2^64 - 1, 5)\<close> then returns the five primes from 3 on, not a
  short result.
\<close>

theorem C5_generate_wraps_at_ceiling:
  assumes "5 \<le> max_size lim" and "5 \<le> max_alloc lim"
  shows "next_candidate_u64 18446744073709551615 = 1
   \<and> generate_primes_u64 msc lim 18446744073709551615 5 = Some (Inr [3, 5, 7, 11, 13])"
  using assms
  by (simp add: generate_primes_u64_def reserve_def next_candidate_u64_def is_prime_u64_def
      small_primes_def skip_multiples_of_3.simps generate_loop_u64.simps)

theorem C5_generate_wraps_at_ceiling_witness:
  "next_candidate_u64 18446744073709551615 = 1
   \<and> generate_primes_u64 True \<lparr>max_size = 1152921504606846975, max_alloc = 1000000\<rparr>
         18446744073709551615 5 = Some (Inr [3, 5, 7, 11, 13])"
  using C5_generate_wraps_at_ceiling
    [of "\<lparr>max_size = 1152921504606846975, max_alloc = 1000000\<rparr>" True]
  by simp

text \<open>
  C7. In the bounded domain \<^verbatim>\<open>next_candidate_u64(2^64 - 1)\<close> is 1 and
  \<^verbatim>\<open>next_candidate_u64(1)\<close> is 2: the function is not idempotent on that output.
\<close>

theorem C7_next_candidate_u64_not_idempotent:
  "next_candidate_u64 (next_candidate_u64 18446744073709551615) = 2
   \<and> next_candidate_u64 18446744073709551615 = 1"
  by (simp add: next_candidate_u64_def skip_multiples_of_3.simps)

text \<open>
  C2. With start 0 and count 0 both generators return the list \<open>[2]\<close>: one value where
  none was asked for. The 2 is appended before the loop tests the count.
\<close>

theorem C2_generate_count_zero:
  "generate_primes_u64 msc lim 0 0 = Some (Inr [2])
   \<and> generate_primes lim 0 0 r = Some (Inr [2])"
  by (simp add: generate_primes_u64_def next_candidate_u64_def reserve_def
      generate_primes_def next_candidate_def generate_loop.simps generate_loop_u64.simps)

text \<open>
  C9. With a start that parses and the count \<^verbatim>\<open>abc\<close>, \<^verbatim>\<open>std::stoull\<close> throws outside of
  any \<^verbatim>\<open>try\<close>: the bounded \<^verbatim>\<open>main\<close> ends in an uncaught exception, neither exit code 0
  nor 1, and so does the unbounded one whenever its start was read.
\<close>

theorem C9_main_malformed_count:
  "main_u64 msc lim [''next_primes'', ''10'', ''abc''] = Uncaught invalid_argument
   \<and> main_big read_cpp_int lim r [''next_primes'', a, ''abc'']
       = (case read_cpp_int a of None \<Rightarrow> Exit 1 [] True
          | Some start \<Rightarrow> Uncaught invalid_argument)"
  by (simp add: main_u64_def main_big_def stoull_def isspace_def isdigit_def
      digits_value_def split: option.split)

lemma trunc_mod_nonneg: "0 \<le> a \<Longrightarrow> 0 < b \<Longrightarrow> trunc_mod a b = a mod b"
  by (simp add: trunc_mod_def sgn_if)

lemma small_primes_accepted:
  "list_all (\<lambda>p. \<not> p < 2 \<and> trial_division_u64 small_primes p = Some True) small_primes"
  by (simp add: small_primes_def)

lemma SMALL_PRIMES_accepted:
  "list_all (\<lambda>p. \<not> p < 2 \<and> trial_division SMALL_PRIMES p = Some True) SMALL_PRIMES"
  by code_simp

theorem C8_table_even_and_small:
  "(p \<in> set small_primes \<longrightarrow> is_prime_u64 msc p = Some True)
   \<and> (2 < e \<and> even e \<longrightarrow> is_prime_u64 msc e = Some False)
   \<and> (l < 2 \<longrightarrow> is_prime_u64 msc l = Some False)
   \<and> (P \<in> set SMALL_PRIMES \<longrightarrow> is_prime P r = Some (True, r))
   \<and> (2 < E \<and> even E \<longrightarrow> is_prime E r = Some (False, r))
   \<and> (L < 2 \<longrightarrow> is_prime L r = Some (False, r))"
proof (intro conjI impI)
  assume "p \<in> set small_primes"
  then have "\<not> p < 2 \<and> trial_division_u64 small_primes p = Some True"
    using small_primes_accepted by (simp add: list_all_iff)
  then show "is_prime_u64 msc p = Some True"
    by (simp add: is_prime_u64_def)
next
  assume e: "2 < e \<and> even e"
  then have "\<not> e < 2" and "e \<noteq> 2" and "e mod 2 = 0"
    by (auto simp: word_less_nat_alt even_iff_mod_2_eq_zero)
  then show "is_prime_u64 msc e = Some False"
    by (simp add: is_prime_u64_def small_primes_def)
next
  assume "l < 2"
  then show "is_prime_u64 msc l = Some False"
    by (simp add: is_prime_u64_def)
next
  assume "P \<in> set SMALL_PRIMES"
  then have "\<not> P < 2 \<and> trial_division SMALL_PRIMES P = Some True"
    using SMALL_PRIMES_accepted by (simp add: list_all_iff)
  then show "is_prime P r = Some (True, r)"
    by (simp add: is_prime_def)
next
  assume E: "2 < E \<and> even E"
  then have "trunc_mod E 2 = 0"
    by (simp add: trunc_mod_nonneg)
  with E show "is_prime E r = Some (False, r)"
    by (simp add: is_prime_def SMALL_PRIMES_def)
next
  assume "L < 2"
  then show "is_prime L r = Some (False, r)"
    by (simp add: is_prime_def)
qed

theorem C8_table_even_and_small_witness:
  "is_prime_u64 True 37 = Some True \<and> is_prime_u64 True 38 = Some False
   \<and> is_prime_u64 True 1 = Some False
   \<and> is_prime 499 (\<lambda>i. 7) = Some (True, \<lambda>i. 7)
   \<and> is_prime 500 (\<lambda>i. 7) = Some (False, \<lambda>i. 7)
   \<and> is_prime (- 3) (\<lambda>i. 7) = Some (False, \<lambda>i. 7)"
  using C8_table_even_and_small [of 37 True 38 1 499 "\<lambda>i. 7" 500 "- 3"]
  by (simp add: small_primes_def SMALL_PRIMES_def)

section \<open>Fermat's little theorem and square roots of one\<close>

lemma prime_nat_coprime:
  assumes "prime_nat p" and "\<not> p dvd a"
  shows "coprime p a"
proof -
  have "gcd p a dvd p" by simp
  then have "gcd p a = 1 \<or> gcd p a = p"
    using assms(1) by (simp add: prime_nat_def)
  moreover have "gcd p a \<noteq> p"
    using assms(2) by (metis gcd_dvd2)
  ultimately show ?thesis
    by (simp add: coprime_iff_gcd_eq_1)
qed

lemma prime_nat_dvd_mult:
  assumes "prime_nat p" and "p dvd a * b"
  shows "p dvd a \<or> p dvd b"
proof (cases "p dvd a")
  case False
  then have "coprime p a" using assms(1) by (rule prime_nat_coprime [rotated])
  then show ?thesis
    using assms(2) by (simp add: coprime_dvd_mult_right_iff)
qed simp

lemma prime_nat_dvd_choose:
  assumes p: "prime_nat p" and k: "0 < k" "k < p"
  shows "p dvd (p choose k)"
proof -
  obtain j where j: "k = Suc j" using k by (cases k) auto
  have "Suc j * (p choose Suc j) = p * ((p - 1) choose j)"
    by (rule binomial_absorption)
  then have "p dvd k * (p choose k)"
    by (simp add: j)
  then have "p dvd k \<or> p dvd (p choose k)"
    using p by (rule prime_nat_dvd_mult [rotated])
  moreover have "\<not> p dvd k"
    using k by (simp add: nat_dvd_not_less)
  ultimately show ?thesis by simp
qed

lemma fermat_step:
  assumes p: "prime_nat p"
  shows "(a + 1) ^ p mod p = (a ^ p + 1) mod p"
proof -
  have p1: "1 < p" using p by (simp add: prime_nat_def)
  define f where "f k = (p choose k) * a ^ k" for k
  have "(a + 1) ^ p = (\<Sum>k\<le>p. f k)"
    using binomial [of a 1 p] by (simp add: f_def)
  also have "{..p} = insert 0 (insert p {1..<p})"
    using p1 by auto
  also have "sum f (insert 0 (insert p {1..<p})) = f 0 + f p + sum f {1..<p}"
    using p1 by simp
  finally have e: "(a + 1) ^ p = (a ^ p + 1) + sum f {1..<p}"
    by (simp add: f_def)
  have "p dvd f k" if "k \<in> {1..<p}" for k
    using that prime_nat_dvd_choose [OF p, of k] by (simp add: f_def)
  then have "p dvd sum f {1..<p}"
    by (rule dvd_sum)
  then have "sum f {1..<p} mod p = 0"
    by (simp add: dvd_eq_mod_eq_0)
  then have "((a ^ p + 1) + sum f {1..<p}) mod p = (a ^ p + 1) mod p"
    by (metis mod_add_right_eq add.right_neutral)
  then show ?thesis
    by (simp only: e)
qed

lemma fermat_power_p:
  assumes p: "prime_nat p"
  shows "a ^ p mod p = a mod p"
proof (induction a)
  case 0
  have "0 < p" using p by (simp add: prime_nat_def)
  then show ?case by (simp add: zero_power)
next
  case (Suc a)
  have "(a + 1) ^ p mod p = (a ^ p + 1) mod p"
    by (rule fermat_step [OF p])
  also have "\<dots> = (a ^ p mod p + 1) mod p"
    by (rule mod_add_left_eq [symmetric])
  also have "\<dots> = (a mod p + 1) mod p"
    by (simp only: Suc.IH)
  also have "\<dots> = (a + 1) mod p"
    by (rule mod_add_left_eq)
  finally show ?case by simp
qed

lemma fermat_little:
  assumes p: "prime_nat p" and a: "\<not> p dvd a"
  shows "a ^ (p - 1) mod p = 1"
proof -
  have p1: "1 < p" using p by (simp add: prime_nat_def)
  have a0: "0 < a" using a by (cases a) auto
  then have ge: "1 \<le> a ^ (p - 1)" by simp
  have "a * a ^ (p - 1) = a ^ p"
    using p1 by (cases p) auto
  then have "(a * a ^ (p - 1)) mod p = (a * 1) mod p"
    using fermat_power_p [OF p, of a] by simp
  then have "p dvd a * a ^ (p - 1) - a * 1"
    using ge by (subst (asm) mod_eq_dvd_iff_nat) auto
  then have "p dvd a * (a ^ (p - 1) - 1)"
    by (simp add: right_diff_distrib')
  then have "p dvd a ^ (p - 1) - 1"
    using prime_nat_dvd_mult [OF p] a by blast
  then have "a ^ (p - 1) mod p = 1 mod p"
    using mod_eq_dvd_iff_nat [OF ge, of p] by blast
  then show ?thesis using p1 by simp
qed

lemma sqrt_one_mod_prime:
  assumes p: "prime_nat p" and x: "x * x mod p = 1"
  shows "x mod p = 1 \<or> x mod p = p - 1"
proof -
  have p1: "1 < p" using p by (simp add: prime_nat_def)
  define y where "y = x mod p"
  have yp: "y < p" using p1 by (simp add: y_def)
  have yy: "y * y mod p = 1"
    using x by (simp add: y_def mod_mult_eq)
  have y0: "0 < y" using yy p1 by (cases y) auto
  then have ge: "1 \<le> y * y" by (simp add: Suc_leI)
  have "y * y mod p = 1 mod p" using yy p1 by simp
  then have "p dvd y * y - 1"
    using mod_eq_dvd_iff_nat [OF ge, of p] by blast
  moreover have "y * y - 1 = (y - 1) * (y + 1)"
    using y0 by (simp add: algebra_simps)
  ultimately have "p dvd y - 1 \<or> p dvd y + 1"
    using prime_nat_dvd_mult [OF p] by simp
  then show ?thesis
  proof
    assume "p dvd y - 1"
    then have "y - 1 = 0" using yp by (meson dvd_imp_le less_imp_diff_less linorder_not_less not_gr_zero)
    then show ?thesis using y0 by (simp add: y_def [symmetric])
  next
    assume "p dvd y + 1"
    then have "p \<le> y + 1" by (simp add: dvd_imp_le)
    then have "y = p - 1" using yp by simp
    then show ?thesis by (simp add: y_def [symmetric])
  qed
qed

lemma squaring_chain:
  assumes p: "prime_nat p"
  shows "y ^ (2 ^ s) mod p = 1 \<Longrightarrow> y mod p = 1 \<or> (\<exists>j. j < s \<and> y ^ (2 ^ j) mod p = p - 1)"
proof (induction s)
  case 0
  then show ?case by simp
next
  case (Suc s)
  have "y ^ (2 ^ Suc s) = y ^ (2 ^ s) * y ^ (2 ^ s)"
    by (simp add: power_add [symmetric] mult_2)
  then have "y ^ (2 ^ s) * y ^ (2 ^ s) mod p = 1"
    using Suc.prems by simp
  then have "y ^ (2 ^ s) mod p = 1 \<or> y ^ (2 ^ s) mod p = p - 1"
    by (rule sqrt_one_mod_prime [OF p])
  then show ?case
  proof
    assume "y ^ (2 ^ s) mod p = 1"
    then have "y mod p = 1 \<or> (\<exists>j. j < s \<and> y ^ (2 ^ j) mod p = p - 1)"
      by (rule Suc.IH)
    then show ?thesis using less_Suc_eq by auto
  next
    assume "y ^ (2 ^ s) mod p = p - 1"
    then show ?thesis by blast
  qed
qed

section \<open>The unbounded modular arithmetic is exact\<close>

lemma nat_even_half: "0 < exp \<Longrightarrow> even exp \<Longrightarrow> nat exp = 2 * nat (exp div 2)" for exp :: int
  by (metis dvd_mult_div_cancel nat_mult_distrib nat_numeral zero_le_numeral)

lemma nat_odd_half:
  assumes "0 < exp" and "odd exp"
  shows "nat exp = Suc (2 * nat (exp div 2))"
proof -
  have q: "0 \<le> exp div 2" using assms(1) by simp
  have "nat exp = nat (2 * (exp div 2) + 1)"
    using assms(2) by simp
  also have "\<dots> = Suc (2 * nat (exp div 2))"
    using q by (simp add: nat_add_distrib nat_mult_distrib)
  finally show ?thesis .
qed

lemma mod_mult_power_right: "(x * (y mod m) ^ k) mod m = (x * y ^ k) mod m" for m :: int
  by (metis mod_mult_right_eq power_mod)

lemma power_square: "(base * base) ^ k = base ^ (2 * k)" for base :: int
  by (simp add: power_mult power2_eq_square)

lemma even_step:
  "(res * (base * base mod m) ^ k) mod m = (res * base ^ (2 * k)) mod m" for m :: int
  by (simp add: mod_mult_power_right power_square)

lemma odd_step:
  "((res * base mod m) * (base * base mod m) ^ k) mod m = (res * base ^ Suc (2 * k)) mod m" for m :: int
proof -
  have "((res * base mod m) * (base * base mod m) ^ k) mod m
      = ((res * base mod m) * (base * base) ^ k) mod m"
    by (rule mod_mult_power_right)
  also have "\<dots> = ((res * base) * (base * base) ^ k) mod m"
    by (rule mod_mult_left_eq)
  also have "(res * base) * (base * base) ^ k = res * base ^ Suc (2 * k)"
    by (simp add: power_square)
  finally show ?thesis .
qed
lemma mulmod_nonneg: "0 \<le> a \<Longrightarrow> 0 \<le> b \<Longrightarrow> 0 < m \<Longrightarrow> mulmod a b m = (a * b) mod m"
  by (simp add: mulmod_def trunc_mod_nonneg)

lemma powmod_loop_correct:
  "0 \<le> res \<Longrightarrow> res < m \<Longrightarrow> 0 \<le> base \<Longrightarrow> 0 \<le> exp
   \<Longrightarrow> powmod_loop res base exp m = (res * base ^ nat exp) mod m"
proof (induction res base exp m rule: powmod_loop.induct)
  case (1 res base exp m)
  have m: "0 < m" using "1.prems" by simp
  show ?case
  proof (cases "exp > 0")
    case False
    then have "exp = 0" using "1.prems" by simp
    then show ?thesis using "1.prems" by (simp add: powmod_loop.simps)
  next
    case True
    define q where "q = exp div 2"
    define base1 where "base1 = mulmod base base m"
    have q0: "0 \<le> q" using True by (simp add: q_def)
    have base1: "base1 = (base * base) mod m"
      using "1.prems" m by (simp add: base1_def mulmod_nonneg)
    have b0: "0 \<le> base1" using m by (simp add: base1)
    show ?thesis
    proof (cases "even exp")
      case even: True
      have step: "powmod_loop res base exp m = powmod_loop res base1 q m"
        using True even
        by (subst powmod_loop.simps)
          (simp add: base1_def q_def Let_def and_one_eq drop_bit_eq_div even_iff_mod_2_eq_zero)
      have "powmod_loop res base1 q m = (res * base1 ^ nat q) mod m"
        using "1.IH" [OF True refl refl refl] q0 b0 "1.prems" even
        by (simp add: q_def base1_def and_one_eq drop_bit_eq_div even_iff_mod_2_eq_zero)
      also have "\<dots> = (res * base ^ (2 * nat q)) mod m"
        unfolding base1 by (rule even_step)
      also have "2 * nat q = nat exp"
        using nat_even_half [OF True even] by (simp add: q_def)
      finally show ?thesis using step by simp
    next
      case odd: False
      define res1 where "res1 = mulmod res base m"
      have res1: "res1 = (res * base) mod m"
        using "1.prems" m by (simp add: res1_def mulmod_nonneg)
      have r0: "0 \<le> res1" "res1 < m" using m by (simp_all add: res1)
      have step: "powmod_loop res base exp m = powmod_loop res1 base1 q m"
        using True odd
        by (subst powmod_loop.simps)
          (simp add: base1_def res1_def q_def Let_def and_one_eq drop_bit_eq_div
            even_iff_mod_2_eq_zero)
      have "powmod_loop res1 base1 q m = (res1 * base1 ^ nat q) mod m"
        using "1.IH" [OF True refl refl refl] q0 b0 r0 odd
        by (simp add: q_def base1_def res1_def and_one_eq drop_bit_eq_div
            even_iff_mod_2_eq_zero)
      also have "\<dots> = (res * base ^ Suc (2 * nat q)) mod m"
        unfolding base1 res1 by (rule odd_step)
      also have "Suc (2 * nat q) = nat exp"
        using nat_odd_half [OF True odd] by (simp add: q_def)
      finally show ?thesis using step by simp
    qed
  qed
qed

lemma powmod_correct:
  assumes "0 \<le> base" and "0 \<le> exp" and "0 < m"
  shows "powmod base exp m = base ^ nat exp mod m"
proof -
  have "powmod base exp m = (1 mod m * (base mod m) ^ nat exp) mod m"
    using assms by (simp add: powmod_def trunc_mod_nonneg powmod_loop_correct)
  also have "\<dots> = (1 mod m * base ^ nat exp) mod m"
    by (rule mod_mult_power_right)
  also have "\<dots> = (1 * base ^ nat exp) mod m"
    by (rule mod_mult_left_eq)
  finally show ?thesis by simp
qed

lemma decompose_loop_Some:
  "0 < d \<Longrightarrow> \<exists>d' k. decompose_loop d s = Some (d', s + k) \<and> odd d' \<and> 0 < d' \<and> d = d' * 2 ^ k"
proof (induction "nat d" arbitrary: d s rule: less_induct)
  case less
  show ?case
  proof (cases "even d")
    case False
    then have "decompose_loop d s = Some (d, s + 0)"
      by (subst decompose_loop.simps) (simp add: and_one_eq even_iff_mod_2_eq_zero)
    then show ?thesis using False less.prems by (intro exI [of _ d] exI [of _ 0]) simp
  next
    case True
    then have d2: "0 < d div 2" and lt: "nat (d div 2) < nat d"
      using less.prems by auto
    obtain d' k where dk: "decompose_loop (d div 2) (s + 1) = Some (d', s + 1 + k)"
        "odd d'" "0 < d'" "d div 2 = d' * 2 ^ k"
      using less.hyps [OF lt d2, of "s + 1"] by blast
    have "decompose_loop d s = decompose_loop (d div 2) (s + 1)"
      using True by (subst decompose_loop.simps) (simp add: and_one_eq drop_bit_eq_div even_iff_mod_2_eq_zero)
    then have "decompose_loop d s = Some (d', s + (k + 1))"
      using dk(1) by (simp add: add.assoc add.commute)
    moreover have "d = d' * 2 ^ (k + 1)"
      using True dk(4) by auto
    ultimately show ?thesis using dk(2,3) by blast
  qed
qed

lemma decompose_Some:
  assumes "2 \<le> n"
  shows "\<exists>d s. decompose n = Some (d, s) \<and> 0 < d \<and> n - 1 = d * 2 ^ s"
  using decompose_loop_Some [of "n - 1" 0] assms by (auto simp: decompose_def)

lemma prime_nat_gt_1: "prime_nat p \<Longrightarrow> 1 < p"
  by (simp add: prime_nat_def)

lemma fermat_little_int:
  assumes p: "prime_nat (nat n)" and a: "0 \<le> a" and nd: "\<not> n dvd a"
  shows "a ^ (nat n - 1) mod n = 1"
proof -
  have n: "n = int (nat n)" using prime_nat_gt_1 [OF p] by simp
  have a': "a = int (nat a)" using a by simp
  have "\<not> nat n dvd nat a"
    using nd by (metis n a' int_dvd_int_iff)
  then have "nat a ^ (nat n - 1) mod nat n = 1"
    by (rule fermat_little [OF p])
  then have "int (nat a ^ (nat n - 1) mod nat n) = 1"
    by simp
  then have "int (nat a) ^ (nat n - 1) mod int (nat n) = 1"
    by (simp add: zmod_int)
  then show ?thesis using n a' by simp
qed

lemma squaring_chain_int:
  assumes p: "prime_nat (nat n)" and y: "0 \<le> y" and one: "y ^ (2 ^ s) mod n = 1"
  shows "y mod n = 1 \<or> (\<exists>j. j < s \<and> y ^ (2 ^ j) mod n = n - 1)"
proof -
  have n1: "1 < nat n" by (rule prime_nat_gt_1 [OF p])
  have n: "n = int (nat n)" using n1 by simp
  have y': "y = int (nat y)" using y by simp
  have conv: "y ^ k mod n = int (nat y ^ k mod nat n)" for k
    by (subst n, subst y') (simp only: zmod_int of_nat_power)
  have "int (nat y ^ (2 ^ s) mod nat n) = 1"
    using one by (simp only: conv)
  then have "nat y ^ (2 ^ s) mod nat n = 1"
    by simp
  then have "nat y mod nat n = 1 \<or> (\<exists>j. j < s \<and> nat y ^ (2 ^ j) mod nat n = nat n - 1)"
    by (rule squaring_chain [OF p])
  then show ?thesis
  proof
    assume "nat y mod nat n = 1"
    then have "nat y ^ 1 mod nat n = 1" by simp
    then have "y ^ 1 mod n = 1" by (simp only: conv)
    then show ?thesis by simp
  next
    assume "\<exists>j. j < s \<and> nat y ^ (2 ^ j) mod nat n = nat n - 1"
    then obtain j where j: "j < s" "nat y ^ (2 ^ j) mod nat n = nat n - 1" by blast
    have "y ^ (2 ^ j) mod n = int (nat n - 1)"
      using j(2) by (simp only: conv)
    also have "\<dots> = n - 1" using n1 by simp
    finally show ?thesis using j(1) by blast
  qed
qed

lemma limbs_loop_nonneg: "0 \<le> a \<Longrightarrow> 0 \<le> fst (limbs_loop k a r)"
proof (induction k arbitrary: a r)
  case 0
  then show ?case by simp
next
  case (Suc k)
  have "0 \<le> push_bit 64 a + uint (fst (dist64 r))"
    using Suc.prems by (simp add: push_bit_eq_mult)
  then show ?case
    using Suc.IH by (simp add: split_def Let_def)
qed

lemma random_base_range:
  assumes "2 \<le> l"
  shows "2 \<le> fst (random_base l r) \<and> fst (random_base l r) \<le> l"
proof (cases "l \<le> 2")
  case True
  then show ?thesis using assms by (simp add: random_base_def)
next
  case False
  define a where "a = fst (limbs_loop ((msb_index l + 1 + 63) div 64) 0 r)"
  define a1 where "a1 = (if a \<le> 1 then a + 2 else a)"
  have "0 \<le> a" unfolding a_def by (rule limbs_loop_nonneg) simp
  then have a1: "0 \<le> a1" by (simp add: a1_def)
  have l: "0 < l - 1" using False by simp
  have t: "trunc_mod a1 (l - 1) = a1 mod (l - 1)"
    using a1 l by (rule trunc_mod_nonneg)
  have "fst (random_base l r) = trunc_mod a1 (l - 1) + 2"
    using False by (simp add: random_base_def Let_def split_def a_def a1_def)
  moreover have "0 \<le> a1 mod (l - 1)" and "a1 mod (l - 1) < l - 1"
    using l by simp_all
  ultimately show ?thesis using t by simp
qed

lemma squaring_loop_passes:
  assumes "0 < n" and "0 \<le> x"
  shows "j < s - r \<Longrightarrow> x ^ (2 ^ Suc j) mod n = n - 1 \<Longrightarrow> squaring_loop n x r s"
  using assms(2)
proof (induction j arbitrary: x r)
  case 0
  then have "r < s" and "mulmod x x n = n - 1"
    using assms(1) by (simp_all add: mulmod_nonneg power2_eq_square)
  then show ?case by (subst squaring_loop.simps) simp
next
  case (Suc j)
  define x1 where "x1 = mulmod x x n"
  have x1: "x1 = (x * x) mod n"
    using Suc.prems assms(1) by (simp add: x1_def mulmod_nonneg)
  have r: "r < s" and j: "j < s - (r + 1)" using Suc.prems by simp_all
  have "x1 ^ (2 ^ Suc j) mod n = (x * x) ^ (2 ^ Suc j) mod n"
    unfolding x1 by (rule power_mod)
  also have "(x * x) ^ (2 ^ Suc j) = x ^ (2 ^ Suc (Suc j))"
    by (simp add: power_mult [symmetric] power2_eq_square [symmetric])
  finally have "x1 ^ (2 ^ Suc j) mod n = n - 1"
    using Suc.prems by simp
  moreover have "0 \<le> x1" using assms(1) by (simp add: x1)
  ultimately have "squaring_loop n x1 (r + 1) s"
    using Suc.IH [OF j] by blast
  then show ?case
    using r by (subst squaring_loop.simps) (simp add: x1_def [symmetric])
qed

lemma rounds_loop_prime:
  assumes p: "prime_nat (nat n)" and n5: "5 \<le> n" and d: "0 < d" and nd: "n - 1 = d * 2 ^ s"
  shows "fst (rounds_loop t n d s r)"
proof (induction t arbitrary: r)
  case 0
  show ?case by simp
next
  case (Suc t)
  define a where "a = fst (random_base (n - 2) r)"
  define r1 where "r1 = snd (random_base (n - 2) r)"
  define x where "x = powmod a d n"
  have ar: "2 \<le> a \<and> a \<le> n - 2"
    unfolding a_def using n5 by (intro random_base_range) simp
  have ndvd: "\<not> n dvd a"
  proof
    assume "n dvd a"
    then have "n \<le> a" using ar by (intro zdvd_imp_le) simp_all
    then show False using ar by simp
  qed
  have x: "x = a ^ nat d mod n"
    unfolding x_def using ar d n5 by (intro powmod_correct) simp_all
  have x0: "0 \<le> x" and xn: "x < n"
    using n5 by (simp_all add: x)
  have "nat (n - 1) = nat d * 2 ^ s"
    using d by (simp add: nd nat_mult_distrib nat_power_eq)
  then have e: "nat d * 2 ^ s = nat n - 1"
    by (simp add: nat_diff_distrib')
  have "x ^ (2 ^ s) mod n = (a ^ nat d) ^ (2 ^ s) mod n"
    unfolding x by (rule power_mod)
  also have "(a ^ nat d) ^ (2 ^ s) = a ^ (nat n - 1)"
    by (simp add: power_mult [symmetric] e)
  also have "a ^ (nat n - 1) mod n = 1"
    using p _ ndvd by (rule fermat_little_int) (use ar in simp)
  finally have "x mod n = 1 \<or> (\<exists>j. j < s \<and> x ^ (2 ^ j) mod n = n - 1)"
    using p x0 by (intro squaring_chain_int)
  then have pass: "x = 1 \<or> x = n - 1 \<or> squaring_loop n x 1 s"
  proof
    assume "x mod n = 1"
    then show ?thesis using x0 xn by simp
  next
    assume "\<exists>j. j < s \<and> x ^ (2 ^ j) mod n = n - 1"
    then obtain j where j: "j < s" "x ^ (2 ^ j) mod n = n - 1" by blast
    show ?thesis
    proof (cases j)
      case 0
      then show ?thesis using j(2) x0 xn by simp
    next
      case (Suc i)
      have "squaring_loop n x 1 s"
        using n5 x0 j unfolding Suc by (intro squaring_loop_passes [of n x i s 1]) simp_all
      then show ?thesis by simp
    qed
  qed
  have "rounds_loop (Suc t) n d s r = rounds_loop t n d s r1"
    using pass by (auto simp: split_def Let_def a_def r1_def x_def)
  then show ?case using Suc.IH by simp
qed

lemma trial_division_prime:
  assumes p: "prime_nat (nat n)"
  shows "\<forall>q\<in>set ps. 2 \<le> q \<Longrightarrow> trial_division ps n \<noteq> Some False"
proof (induction ps)
  case Nil
  show ?case by simp
next
  case (Cons q ps)
  have n: "2 \<le> n" using prime_nat_gt_1 [OF p] by simp
  have q: "2 \<le> q" using Cons.prems by simp
  have "n = q" if "trunc_mod n q = 0"
  proof -
    have "n mod q = 0" using that n q by (simp add: trunc_mod_nonneg)
    then have "q dvd n" by (simp add: dvd_eq_mod_eq_0)
    then have "nat q dvd nat n" using n q by (simp add: nat_dvd_iff)
    then have "nat q = 1 \<or> nat q = nat n" using p by (simp add: prime_nat_def)
    then show ?thesis using n q by auto
  qed
  then show ?case using Cons by auto
qed

lemma trial_division_None: "trial_division ps n = None \<Longrightarrow> n \<notin> set ps"
  by (induction ps) (auto split: if_splits)

lemma SMALL_PRIMES_ge_2: "\<forall>q\<in>set SMALL_PRIMES. 2 \<le> q"
  by (simp add: SMALL_PRIMES_def)

lemma prime_nat_sqrt:
  assumes p1: "1 < p" and nd: "\<forall>m\<in>{2..<k}. \<not> m dvd p" and kk: "p < k * k"
  shows "prime_nat p"
  unfolding prime_nat_def
proof (intro conjI allI impI)
  show "1 < p" by (rule p1)
next
  fix m
  assume m: "m dvd p"
  then obtain c where c: "p = m * c" by (auto simp: dvd_def)
  have m0: "0 < m" and c0: "0 < c" using c p1 by (cases m; cases c; simp)+
  show "m = 1 \<or> m = p"
  proof (rule ccontr)
    assume neg: "\<not> (m = 1 \<or> m = p)"
    then have m2: "2 \<le> m" using m0 by simp
    have "c \<noteq> 1" using neg c by simp
    then have c2: "2 \<le> c" using c0 by simp
    have "m < k \<or> c < k"
    proof (rule ccontr)
      assume "\<not> (m < k \<or> c < k)"
      then have "k * k \<le> m * c" by (simp add: mult_le_mono)
      then show False using kk c by simp
    qed
    moreover have "c dvd p" using c by simp
    ultimately show False using nd m m2 c2 by auto
  qed
qed

lemma prime_nat_503: "prime_nat 503"
  by (rule prime_nat_sqrt [where k = 23]) (simp_all add: atLeastLessThan_nat_numeral)

text \<open>
  C10. For every prime \<open>n\<close>, every number of rounds and every state of the random engine,
  \<^verbatim>\<open>miller_rabin\<close> returns true: whatever the bases drawn, a prime is never reported
  composite.
\<close>

theorem C10_miller_rabin_accepts_primes:
  assumes p: "prime_nat (nat n)"
  shows "\<exists>r1. miller_rabin n rounds r = Some (True, r1)"
proof -
  have n2: "2 \<le> n" using prime_nat_gt_1 [OF p] by simp
  have nf: "trial_division SMALL_PRIMES n \<noteq> Some False"
    using p SMALL_PRIMES_ge_2 by (rule trial_division_prime)
  show ?thesis
  proof (cases "trial_division SMALL_PRIMES n")
    case (Some b)
    then have "b" using nf by simp
    then show ?thesis using Some n2 by (simp add: miller_rabin_def)
  next
    case None
    then have "n \<notin> set SMALL_PRIMES" by (rule trial_division_None)
    then have "n \<noteq> 2" and "n \<noteq> 3" by (auto simp: SMALL_PRIMES_def)
    moreover have "n \<noteq> 4"
    proof
      assume "n = 4"
      then have "prime_nat 4" using p by simp
      then have "(2::nat) dvd 4 \<longrightarrow> (2::nat) = 1 \<or> (2::nat) = 4"
        unfolding prime_nat_def by blast
      then show False by simp
    qed
    ultimately have n5: "5 \<le> n" using n2 by simp
    obtain d s where ds: "decompose n = Some (d, s)" "0 < d" "n - 1 = d * 2 ^ s"
      using decompose_Some [OF n2] by blast
    have "fst (rounds_loop (nat rounds) n d s r)"
      using p n5 ds(2,3) by (rule rounds_loop_prime)
    then obtain r1 where "rounds_loop (nat rounds) n d s r = (True, r1)"
      by (cases "rounds_loop (nat rounds) n d s r") simp
    then show ?thesis
      using None ds(1) n2 by (simp add: miller_rabin_def)
  qed
qed

theorem C10_miller_rabin_accepts_primes_witness:
  "prime_nat (nat 503) \<and> (\<exists>r1. miller_rabin 503 32 (\<lambda>i. 5) = Some (True, r1))"
  using C10_miller_rabin_accepts_primes [of 503 32 "\<lambda>i. 5"] prime_nat_503 by simp

section \<open>A primality certificate\<close>

text \<open>
  The criterion of Lucas: \<open>n\<close> is prime when some \<open>a\<close> has order \<open>n - 1\<close> modulo \<open>n\<close>.
\<close>

lemma prime_factor_nat: "1 < m \<Longrightarrow> \<exists>q. prime_nat q \<and> q dvd m"
proof (induction m rule: less_induct)
  case (less m)
  show ?case
  proof (cases "prime_nat m")
    case True
    then show ?thesis by auto
  next
    case False
    then obtain d where d: "d dvd m" "d \<noteq> 1" "d \<noteq> m"
      using less.prems by (auto simp: prime_nat_def)
    have "d \<noteq> 0"
    proof
      assume "d = 0"
      then have "m = 0" using d(1) by simp
      then show False using less.prems by simp
    qed
    then have d1: "1 < d" using d(2) by simp
    have "d \<le> m" using d(1) less.prems by (simp add: dvd_imp_le)
    then have dm: "d < m" using d(3) by simp
    obtain q where "prime_nat q" "q dvd d"
      using less.IH [OF dm d1] by blast
    then show ?thesis using d(1) dvd_trans by blast
  qed
qed

lemma power_order_multiple:
  fixes a n :: nat
  assumes "a ^ k mod n = 1"
  shows "a ^ (k * t) mod n = 1 mod n"
proof -
  have "a ^ (k * t) mod n = (a ^ k mod n) ^ t mod n"
    by (simp add: power_mult power_mod)
  then show ?thesis using assms by simp
qed

lemma lucas_order:
  fixes a n :: nat
  assumes n: "1 < n" and one: "a ^ (n - 1) mod n = 1"
    and q: "\<And>q. prime_nat q \<Longrightarrow> q dvd n - 1 \<Longrightarrow> a ^ ((n - 1) div q) mod n \<noteq> 1"
    and k: "0 < k" "k < n - 1"
  shows "a ^ k mod n \<noteq> 1"
proof
  assume k1: "a ^ k mod n = 1"
  define P where "P k \<longleftrightarrow> 0 < k \<and> a ^ k mod n = 1" for k
  define k0 where "k0 = (LEAST k. P k)"
  have "P k" using k k1 by (simp add: P_def)
  then have P0: "P k0" and kk: "k0 \<le> k"
    unfolding k0_def by (rule LeastI, rule Least_le)
  have min: "k0 \<le> j" if "P j" for j
    unfolding k0_def using that by (rule Least_le)
  have k0: "0 < k0" "a ^ k0 mod n = 1"
    using P0 by (simp_all add: P_def)
  have pw: "a ^ (k0 * t) mod n = 1" for t
    using power_order_multiple [OF k0(2), of t] n by simp
  define r where "r = (n - 1) mod k0"
  define t where "t = (n - 1) div k0"
  have dec: "n - 1 = k0 * t + r"
    by (simp add: r_def t_def)
  have "a ^ (n - 1) mod n = (a ^ (k0 * t) * a ^ r) mod n"
    by (simp only: dec power_add)
  also have "\<dots> = (a ^ (k0 * t) mod n * a ^ r) mod n"
    by (simp add: mod_mult_left_eq)
  also have "\<dots> = a ^ r mod n"
    by (simp add: pw)
  finally have "a ^ r mod n = 1" using one by simp
  moreover have "r < k0" using k0(1) by (simp add: r_def)
  ultimately have "r = 0" using min [of r] by (auto simp: P_def)
  then have nt: "n - 1 = k0 * t" using dec by simp
  have "t \<noteq> 0" using nt n by (cases t) auto
  moreover have "t \<noteq> 1" using nt kk k(2) by auto
  ultimately have "1 < t" by simp
  then obtain p where p: "prime_nat p" "p dvd t"
    using prime_factor_nat by blast
  then obtain c where c: "t = p * c" by (auto simp: dvd_def)
  have p0: "0 < p" using p(1) by (simp add: prime_nat_def)
  have "n - 1 = p * (k0 * c)" using nt c by simp
  then have "p dvd n - 1" and "(n - 1) div p = k0 * c"
    using p0 by simp_all
  then show False using q [OF p(1)] pw [of c] by simp
qed

lemma lucas:
  fixes a n :: nat
  assumes n: "1 < n" and one: "a ^ (n - 1) mod n = 1"
    and q: "\<And>q. prime_nat q \<Longrightarrow> q dvd n - 1 \<Longrightarrow> a ^ ((n - 1) div q) mod n \<noteq> 1"
  shows "prime_nat n"
proof -
  have ord: "a ^ k mod n \<noteq> 1" if "0 < k" "k < n - 1" for k
    using n one q that by (rule lucas_order)
  define f where "f i = a ^ i mod n" for i
  have split: "a ^ (n - 1) = a ^ i * a ^ (n - 1 - i)" if "i \<le> n - 1" for i
  proof -
    have "n - 1 = i + (n - 1 - i)" using that by simp
    then show ?thesis by (metis power_add)
  qed
  have inj: "inj_on f {0..<n - 1}"
  proof (rule inj_onI)
    fix i j
    assume i: "i \<in> {0..<n - 1}" and j: "j \<in> {0..<n - 1}" and e: "f i = f j"
    have less: False if lt: "i < j" and b: "j < n - 1" and e: "a ^ i mod n = a ^ j mod n" for i j
    proof -
      have "a ^ (j - i) mod n = (a ^ (j - i) * (a ^ (n - 1) mod n)) mod n"
        using one by simp
      also have "\<dots> = (a ^ (j - i) * a ^ (n - 1)) mod n"
        by (simp add: mod_mult_right_eq)
      also have "a ^ (j - i) * a ^ (n - 1) = a ^ j * a ^ (n - 1 - i)"
        using lt b by (simp add: power_add [symmetric])
      also have "(a ^ j * a ^ (n - 1 - i)) mod n = (a ^ j mod n * a ^ (n - 1 - i)) mod n"
        by (simp add: mod_mult_left_eq)
      also have "\<dots> = (a ^ i mod n * a ^ (n - 1 - i)) mod n"
        by (simp add: e)
      also have "\<dots> = (a ^ i * a ^ (n - 1 - i)) mod n"
        by (simp add: mod_mult_left_eq)
      also have "\<dots> = 1"
        using split [of i] lt b one by simp
      finally have "a ^ (j - i) mod n = 1" .
      moreover have "0 < j - i" and "j - i < n - 1" using lt b by simp_all
      ultimately show False using ord [of "j - i"] by blast
    qed
    show "i = j"
      using less [of i j] less [of j i] i j e by (cases i j rule: linorder_cases) (auto simp: f_def)
  qed
  have range: "f ` {0..<n - 1} \<subseteq> {1..<n}"
  proof
    fix x
    assume "x \<in> f ` {0..<n - 1}"
    then obtain i where i: "i < n - 1" and x: "x = a ^ i mod n" by (auto simp: f_def)
    have "x \<noteq> 0"
    proof
      assume "x = 0"
      then have "(a ^ i mod n * a ^ (n - 1 - i)) mod n = 0" by (simp add: x)
      then have "(a ^ i * a ^ (n - 1 - i)) mod n = 0" by (simp add: mod_mult_left_eq)
      then show False using split [of i] i one by simp
    qed
    moreover have "x < n" using n by (simp add: x)
    ultimately show "x \<in> {1..<n}" by simp
  qed
  have "card (f ` {0..<n - 1}) = card {1..<n}"
    using inj by (simp add: card_image)
  then have eq: "f ` {0..<n - 1} = {1..<n}"
    using range by (intro card_subset_eq) simp_all
  show ?thesis
    unfolding prime_nat_def
  proof (intro conjI allI impI)
    show "1 < n" by (rule n)
  next
    fix m
    assume m: "m dvd n"
    show "m = 1 \<or> m = n"
    proof (rule ccontr)
      assume neg: "\<not> (m = 1 \<or> m = n)"
      have "m \<noteq> 0"
      proof
        assume "m = 0"
        then have "n = 0" using m by simp
        then show False using n by simp
      qed
      moreover have "m \<le> n" using m n by (simp add: dvd_imp_le)
      ultimately have "m \<in> {1..<n}" and m1: "1 < m" using neg by auto
      then obtain i where i: "i < n - 1" and mi: "m = a ^ i mod n"
        unfolding eq [symmetric] by (auto simp: f_def)
      have "m dvd a ^ i mod n" using mi by simp
      then have "m dvd a ^ i" using m by (simp add: dvd_mod_iff)
      then have "m dvd a ^ (n - 1)" using split [of i] i by simp
      then have "a ^ (n - 1) mod m = 0" by (simp add: dvd_eq_mod_eq_0)
      moreover have "a ^ (n - 1) mod n mod m = a ^ (n - 1) mod m"
        using m by (rule mod_mod_cancel)
      ultimately show False using one m1 by simp
    qed
  qed
qed

lemma prime_nat_2: "prime_nat 2"
  by (simp add: prime_nat_bounded)

lemma prime_nat_dvd_power: "prime_nat q \<Longrightarrow> q dvd a ^ k \<Longrightarrow> q dvd a"
proof (induction k)
  case 0
  then show ?case by (simp add: prime_nat_def)
next
  case (Suc k)
  then show ?case using prime_nat_dvd_mult [of q a "a ^ k"] by auto
qed

lemma prime_nat_dvd_prime:
  assumes "prime_nat q" and "prime_nat p" and "q dvd p"
  shows "q = p"
  using assms by (auto simp: prime_nat_def)

lemma lucas_two_three:
  fixes a n m :: nat
  assumes n: "n = Suc m" and m: "m = 2 ^ i * 3 ^ j" and h2: "m = 2 * h2" and h3: "m = 3 * h3"
    and one: "a ^ m mod n = 1" and two: "a ^ h2 mod n \<noteq> 1" and three: "a ^ h3 mod n \<noteq> 1"
  shows "prime_nat n"
proof (rule lucas [of n a])
  have "0 < m" by (simp add: m)
  then show "1 < n" by (simp add: n)
  show "a ^ (n - 1) mod n = 1" using one by (simp add: n)
  fix q
  assume q: "prime_nat q" and d: "q dvd n - 1"
  have "q dvd 2 ^ i * 3 ^ j" using d by (simp add: n m)
  then have "q dvd 2 ^ i \<or> q dvd 3 ^ j"
    using q by (rule prime_nat_dvd_mult [rotated])
  then have "q dvd 2 \<or> q dvd 3"
    using q prime_nat_dvd_power by blast
  then have "q = 2 \<or> q = 3"
    using q prime_nat_2 prime_nat_3 prime_nat_dvd_prime by blast
  then have "(n - 1) div q = h2 \<or> (n - 1) div q = h3"
    using h2 h3 by (auto simp: n)
  then show "a ^ ((n - 1) div q) mod n \<noteq> 1"
    using two three by auto
qed

lemma powmod_nat:
  assumes "powmod a e n = r" and "0 \<le> a" and "0 \<le> e" and "0 < n"
  shows "nat a ^ nat e mod nat n = nat r"
proof -
  have "int (nat a ^ nat e mod nat n) = int (nat a) ^ nat e mod int (nat n)"
    by (simp only: zmod_int of_nat_power)
  also have "\<dots> = a ^ nat e mod n"
    using assms(2,4) by simp
  also have "\<dots> = powmod a e n"
    using assms(2,3,4) by (rule powmod_correct [symmetric])
  finally have "int (nat a ^ nat e mod nat n) = r"
    using assms(1) by simp
  then show ?thesis by (metis nat_int)
qed

lemma certificate_one: "(5::nat) ^ 15564440312192434176 mod 15564440312192434177 = 1"
proof -
  have "powmod 5 15564440312192434176 15564440312192434177 = 1"
    by code_simp
  then have "nat 5 ^ nat 15564440312192434176 mod nat 15564440312192434177 = nat 1"
    by (rule powmod_nat) simp_all
  then show ?thesis
    by (simp only: nat_numeral nat_1)
qed

lemma certificate_two:
  "(5::nat) ^ 7782220156096217088 mod 15564440312192434177 = 15564440312192434176"
proof -
  have "powmod 5 7782220156096217088 15564440312192434177 = 15564440312192434176"
    by code_simp
  then have "nat 5 ^ nat 7782220156096217088 mod nat 15564440312192434177
      = nat 15564440312192434176"
    by (rule powmod_nat) simp_all
  then show ?thesis
    by (simp only: nat_numeral)
qed

lemma certificate_three:
  "(5::nat) ^ 5188146770730811392 mod 15564440312192434177 = 1388037154900824795"
proof -
  have "powmod 5 5188146770730811392 15564440312192434177 = 1388037154900824795"
    by code_simp
  then have "nat 5 ^ nat 5188146770730811392 mod nat 15564440312192434177
      = nat 1388037154900824795"
    by (rule powmod_nat) simp_all
  then show ?thesis
    by (simp only: nat_numeral)
qed

lemma prime_nat_15564440312192434177: "prime_nat 15564440312192434177"
proof (rule lucas_two_three [where a = 5 and i = 59 and j = 3
      and m = 15564440312192434176 and ?h2.0 = 7782220156096217088
      and ?h3.0 = 5188146770730811392])
  show "(15564440312192434177::nat) = Suc 15564440312192434176" by simp
  show "(15564440312192434176::nat) = 2 ^ 59 * 3 ^ 3" by simp
  show "(15564440312192434176::nat) = 2 * 7782220156096217088" by simp
  show "(15564440312192434176::nat) = 3 * 5188146770730811392" by simp
  show "(5::nat) ^ 15564440312192434176 mod 15564440312192434177 = 1"
    by (rule certificate_one)
  show "(5::nat) ^ 7782220156096217088 mod 15564440312192434177 \<noteq> 1"
    unfolding certificate_two by simp
  show "(5::nat) ^ 5188146770730811392 mod 15564440312192434177 \<noteq> 1"
    unfolding certificate_three by simp
qed

lemma msc_build_rejects: "is_prime_u64 True 15564440312192434177 = Some False"
  by code_simp

text \<open>
  C1. The number \<open>15564440312192434177 = 27 \<cdot> 2\<^sup>5\<^sup>9 + 1\<close> is prime, and with
  \<^verbatim>\<open>_MSC_VER\<close> defined \<^verbatim>\<open>is_prime_u64\<close> returns false for it: above \<open>2\<^sup>6\<^sup>3\<close> the
  squarings of the first base go through the wrapping \<^verbatim>\<open>mul_mod\<close>.
\<close>

theorem C1_msc_build_rejects_a_prime:
  "prime_nat 15564440312192434177
   \<and> is_prime_u64 True 15564440312192434177 = Some False"
  using prime_nat_15564440312192434177 msc_build_rejects by blast

theorem C1_msc_build_rejects_a_prime_witness:
  "prime_nat 15564440312192434177
   \<and> is_prime_u64 True 15564440312192434177 \<noteq> Some True"
  using C1_msc_build_rejects_a_prime by simp

end
